theory Spec2Isabelle
  imports Main "HOL-Library.Multiset"
begin

section \<open>The Sudoku engine of script.js\<close>

subsection \<open>Grids\<close>

text \<open>
  A board is the JavaScript array of nine rows of nine numbers, 0 for an empty cell.
  Every board the engine handles is built by \<open>generateCompleteSudoku\<close>
  (\<open>Array(9).fill(0).map(() => Array(9).fill(0))\<close>) or is a JSON copy of such a
  board, and every index the engine uses is below 9, so the functions are modelled on
  lists of lists read with \<open>!\<close> and the theorems are stated for 9x9 boards.
\<close>

type_synonym grid = "nat list list"

definition grid9 :: "grid \<Rightarrow> bool" where
  "grid9 b = (length b = 9 \<and> list_all (\<lambda>row. length row = 9) b)"

text \<open>The read \<open>board[row][col]\<close> and the write \<open>board[row][col] = v\<close>.\<close>

definition cell :: "grid \<Rightarrow> nat \<Rightarrow> nat \<Rightarrow> nat" where
  "cell b r c = b ! r ! c"

definition set_cell :: "grid \<Rightarrow> nat \<Rightarrow> nat \<Rightarrow> nat \<Rightarrow> grid" where
  "set_cell b r c v = b[r := (b ! r)[c := v]]"

text \<open>
  The scan \<open>for row in 0..8, for col in 0..8\<close> visits the positions in row-major
  order; \<open>find_empty\<close> is the first position whose cell is 0, if there is one.
\<close>

definition positions :: "(nat \<times> nat) list" where
  "positions = concat (map (\<lambda>r. map (\<lambda>c. (r, c)) [0..<9]) [0..<9])"

definition find_empty :: "grid \<Rightarrow> (nat \<times> nat) option" where
  "find_empty b = find (\<lambda>(r, c). cell b r c = 0) positions"

definition emptyCount :: "grid \<Rightarrow> nat" where
  "emptyCount b = length (filter (\<lambda>(r, c). cell b r c = 0) positions)"

definition full :: "grid \<Rightarrow> bool" where
  "full b = list_all (\<lambda>(r, c). cell b r c \<noteq> 0) positions"

subsection \<open>isValid\<close>

text \<open>
  Three scans with an early \<open>return false\<close>: the nine cells of the row, the nine
  cells of the column, the nine cells of the box whose corner is
  \<open>(floor(row / 3) * 3, floor(col / 3) * 3)\<close>. None of them skips the target cell.
\<close>

definition isValid :: "grid \<Rightarrow> nat \<Rightarrow> nat \<Rightarrow> nat \<Rightarrow> bool" where
  "isValid board row col num =
     (if list_ex (\<lambda>c. cell board row c = num) [0..<9] then False
      else if list_ex (\<lambda>r. cell board r col = num) [0..<9] then False
      else
        (let boxRow = (row div 3) * 3; boxCol = (col div 3) * 3
         in if list_ex (\<lambda>r. list_ex (\<lambda>c. cell board (boxRow + r) (boxCol + c) = num) [0..<3]) [0..<3]
            then False else True))"

subsection \<open>getCellsToRemove\<close>

text \<open>The \<open>switch\<close> on \<open>this.difficulty\<close>, a string compared with \<open>===\<close>.\<close>

definition getCellsToRemove :: "string \<Rightarrow> nat" where
  "getCellsToRemove difficulty =
     (if difficulty = ''easy'' then 30
      else if difficulty = ''medium'' then 45
      else if difficulty = ''hard'' then 55
      else 30)"

subsection \<open>The random source and shuffleArray\<close>

text \<open>
  \<open>Math.random()\<close> is an external source of numbers. It is modelled as an infinite
  sequence of draws that is passed through every function that shuffles; the index
  \<open>Math.floor(Math.random() * k)\<close> is the next draw reduced into \<open>0 .. k - 1\<close>, so
  that every index the expression can yield is yielded by some sequence.
\<close>

type_synonym rng = "nat \<Rightarrow> nat"

definition random_index :: "nat \<Rightarrow> rng \<Rightarrow> nat \<times> rng" where
  "random_index k g = (g 0 mod k, (\<lambda>n. g (Suc n)))"

text \<open>
  \<open>for (i = array.length - 1; i > 0; i--) { j = floor(random() * (i + 1)); swap i j }\<close>.
  The destructuring swap reads both cells before it writes them.
\<close>

fun shuffle_from :: "nat \<Rightarrow> 'a list \<Rightarrow> rng \<Rightarrow> 'a list \<times> rng" where
  "shuffle_from 0 array g = (array, g)"
| "shuffle_from (Suc k) array g =
     (let i = Suc k;
          (j, g') = random_index (i + 1) g
      in shuffle_from k (array[i := array ! j, j := array ! i]) g')"

definition shuffleArray :: "'a list \<Rightarrow> rng \<Rightarrow> 'a list \<times> rng" where
  "shuffleArray array g = shuffle_from (length array - 1) array g"

subsection \<open>fillBoard and generateCompleteSudoku\<close>

text \<open>
  \<open>fillBoard\<close> mutates the board it is given and calls itself from inside the loop
  over the candidates, so the model threads the board (and the random source) through
  the loop: each iteration continues from the board the previous one left behind.
  The first argument bounds the depth of the recursion; a call that would exceed it
  returns \<open>None\<close>. \<open>fillBoard_nums\<close> is the loop \<open>for (let num of numbers)\<close> followed
  by \<open>return false\<close>. The array \<open>numbers\<close> is local to each call and is shuffled once
  in it, at the first empty cell, since that branch always returns.
\<close>

fun fillBoard :: "nat \<Rightarrow> grid \<Rightarrow> rng \<Rightarrow> (bool \<times> grid \<times> rng) option"
  and fillBoard_nums :: "nat \<Rightarrow> nat list \<Rightarrow> nat \<Rightarrow> nat \<Rightarrow> grid \<Rightarrow> rng \<Rightarrow> (bool \<times> grid \<times> rng) option"
where
  "fillBoard 0 board g = None"
| "fillBoard (Suc n) board g =
     (case find_empty board of
        None \<Rightarrow> Some (True, board, g)
      | Some (row, col) \<Rightarrow>
          (let (numbers, g') = shuffleArray [1, 2, 3, 4, 5, 6, 7, 8, 9] g
           in fillBoard_nums n numbers row col board g'))"
| "fillBoard_nums n [] row col board g = Some (False, board, g)"
| "fillBoard_nums n (num # rest) row col board g =
     (if isValid board row col num then
        (case fillBoard n (set_cell board row col num) g of
           None \<Rightarrow> None
         | Some (ok, board', g') \<Rightarrow>
             if ok then Some (True, board', g')
             else fillBoard_nums n rest row col (set_cell board' row col 0) g')
      else fillBoard_nums n rest row col board g)"

text \<open>
  A 9x9 board has 81 cells and every level of the recursion fills one, so 82 levels
  are enough (this is proved below, not assumed). \<open>generateCompleteSudoku\<close> drops the
  boolean and returns the board.
\<close>

definition depth_bound :: nat where
  "depth_bound = 82"

definition empty_board :: grid where
  "empty_board = replicate 9 (replicate 9 0)"

definition generateCompleteSudoku :: "rng \<Rightarrow> (grid \<times> rng) option" where
  "generateCompleteSudoku g =
     (case fillBoard depth_bound empty_board g of
        None \<Rightarrow> None
      | Some (ok, board, g') \<Rightarrow> Some (board, g'))"

subsection \<open>hasUniqueSolution\<close>

text \<open>
  The closure \<open>solve\<close> shares the counter \<open>solutions\<close> and the board with its
  recursive calls; both are threaded. \<open>solve_nums\<close> is the loop
  \<open>for (num = 1; num <= 9; num++)\<close> followed by \<open>return\<close>.
\<close>

fun solve :: "nat \<Rightarrow> grid \<Rightarrow> nat \<Rightarrow> (grid \<times> nat) option"
  and solve_nums :: "nat \<Rightarrow> nat list \<Rightarrow> nat \<Rightarrow> nat \<Rightarrow> grid \<Rightarrow> nat \<Rightarrow> (grid \<times> nat) option"
where
  "solve 0 b solutions = None"
| "solve (Suc n) b solutions =
     (if solutions > 1 then Some (b, solutions)
      else
        (case find_empty b of
           None \<Rightarrow> Some (b, solutions + 1)
         | Some (row, col) \<Rightarrow> solve_nums n [1, 2, 3, 4, 5, 6, 7, 8, 9] row col b solutions))"
| "solve_nums n [] row col b solutions = Some (b, solutions)"
| "solve_nums n (num # rest) row col b solutions =
     (if isValid b row col num then
        (case solve n (set_cell b row col num) solutions of
           None \<Rightarrow> None
         | Some (b', solutions') \<Rightarrow> solve_nums n rest row col (set_cell b' row col 0) solutions')
      else solve_nums n rest row col b solutions)"

text \<open>
  \<open>hasUniqueSolution\<close> returns \<open>solutions === 1\<close>; the model also returns the board as
  the search left it, which is what the caller's array then holds.
\<close>

definition hasUniqueSolution :: "grid \<Rightarrow> (bool \<times> grid) option" where
  "hasUniqueSolution board =
     (case solve depth_bound board 0 of
        None \<Rightarrow> None
      | Some (board', solutions) \<Rightarrow> Some (solutions = 1, board'))"

subsection \<open>createPuzzle\<close>

text \<open>
  \<open>createPuzzle_loop\<close> is the loop
  \<open>for (i = 0; i < attempts.length && removed < cellsToRemove; i++)\<close> over the rest of
  \<open>attempts\<close>, followed by \<open>return board\<close>. The uniqueness test runs on a JSON copy,
  so the board it leaves behind is dropped.
\<close>

fun createPuzzle_loop :: "nat \<Rightarrow> nat list \<Rightarrow> nat \<Rightarrow> grid \<Rightarrow> grid option" where
  "createPuzzle_loop cellsToRemove [] removed board = Some board"
| "createPuzzle_loop cellsToRemove (index # rest) removed board =
     (if removed < cellsToRemove then
        (let row = index div 9;
             col = index mod 9;
             backup = cell board row col;
             board1 = set_cell board row col 0
         in case hasUniqueSolution board1 of
              None \<Rightarrow> None
            | Some (unique, boardCopy) \<Rightarrow>
                if unique then createPuzzle_loop cellsToRemove rest (removed + 1) board1
                else createPuzzle_loop cellsToRemove rest removed (set_cell board1 row col backup))
      else Some board)"

definition createPuzzle :: "string \<Rightarrow> grid \<Rightarrow> rng \<Rightarrow> (grid \<times> rng) option" where
  "createPuzzle difficulty board g =
     (let cellsToRemove = getCellsToRemove difficulty;
          (attempts, g') = shuffleArray [0..<81] g
      in case createPuzzle_loop cellsToRemove attempts 0 board of
           None \<Rightarrow> None
         | Some board' \<Rightarrow> Some (board', g'))"

subsection \<open>Specification vocabulary\<close>

text \<open>
  Two positions share a unit when they lie in the same row, the same column or the
  same 3x3 box. \<open>appears_elsewhere\<close> says that a value occurs in a unit of the target
  position at a cell other than the target itself.
\<close>

definition same_unit :: "nat \<Rightarrow> nat \<Rightarrow> nat \<Rightarrow> nat \<Rightarrow> bool" where
  "same_unit r c r' c' = (r = r' \<or> c = c' \<or> (r div 3 = r' div 3 \<and> c div 3 = c' div 3))"

definition appears_elsewhere :: "grid \<Rightarrow> nat \<Rightarrow> nat \<Rightarrow> nat \<Rightarrow> bool" where
  "appears_elsewhere b row col v =
     list_ex (\<lambda>(r, c). (r, c) \<noteq> (row, col) \<and> same_unit row col r c \<and> cell b r c = v) positions"

text \<open>Boards used as concrete inputs.\<close>

definition board_only_5 :: grid where
  "board_only_5 = set_cell empty_board 0 0 5"

definition board_all_1 :: grid where
  "board_all_1 = replicate 9 (replicate 9 1)"

definition solved_board :: grid where
  "solved_board =
    [[2, 3, 4, 5, 6, 7, 8, 9, 1], [5, 6, 7, 8, 9, 1, 2, 3, 4],
     [8, 9, 1, 2, 3, 4, 5, 6, 7], [3, 2, 5, 4, 7, 6, 9, 1, 8],
     [4, 7, 6, 9, 1, 8, 3, 2, 5], [9, 1, 8, 3, 2, 5, 4, 7, 6],
     [6, 4, 2, 7, 5, 3, 1, 8, 9], [7, 5, 3, 1, 8, 9, 6, 4, 2],
     [1, 8, 9, 6, 4, 2, 7, 5, 3]]"

text \<open>
  \<open>two_way_board\<close> is \<open>solved_board\<close> with the rectangle (0,0), (0,1), (3,0), (3,1)
  cleared; the 2 and the 3 can be put back in two ways. \<open>dead_board\<close> has no valid
  digit for its first cell.
\<close>

definition two_way_board :: grid where
  "two_way_board =
     set_cell (set_cell (set_cell (set_cell solved_board 0 0 0) 0 1 0) 3 0 0) 3 1 0"

definition dead_board :: grid where
  "dead_board = empty_board[0 := [0, 1, 2, 3, 4, 5, 6, 7, 8], 1 := [9, 0, 0, 0, 0, 0, 0, 0, 0]]"

text \<open>
  \<open>puzzle_board\<close> is what the removal loop makes of \<open>solved_board\<close> for the target 4
  and the visiting order 0, 1, 27, 28, 80: cells (0,0), (0,1) and (3,0) are cleared,
  clearing (3,1) as well is rejected, then (8,8) is cleared.
\<close>

definition puzzle_board :: grid where
  "puzzle_board =
    [[0, 0, 4, 5, 6, 7, 8, 9, 1], [5, 6, 7, 8, 9, 1, 2, 3, 4],
     [8, 9, 1, 2, 3, 4, 5, 6, 7], [0, 2, 5, 4, 7, 6, 9, 1, 8],
     [4, 7, 6, 9, 1, 8, 3, 2, 5], [9, 1, 8, 3, 2, 5, 4, 7, 6],
     [6, 4, 2, 7, 5, 3, 1, 8, 9], [7, 5, 3, 1, 8, 9, 6, 4, 2],
     [1, 8, 9, 6, 4, 2, 7, 5, 0]]"

text \<open>
  A board is consistent when no filled cell has its value repeated at another cell of
  its row, column or box; it is in range when every cell is at most 9. A board
  \<open>b\<close> agrees with \<open>s\<close> when every filled cell of \<open>b\<close> holds the value \<open>s\<close> holds
  there.
\<close>

definition consistent :: "grid \<Rightarrow> bool" where
  "consistent b =
     list_all (\<lambda>(r, c). list_all (\<lambda>(r', c').
        (r, c) \<noteq> (r', c') \<and> same_unit r c r' c' \<and> cell b r c \<noteq> 0 \<longrightarrow> cell b r c \<noteq> cell b r' c')
        positions) positions"

definition in_range :: "grid \<Rightarrow> bool" where
  "in_range b = list_all (\<lambda>(r, c). cell b r c \<le> 9) positions"

definition agrees :: "grid \<Rightarrow> grid \<Rightarrow> bool" where
  "agrees b s = list_all (\<lambda>(r, c). cell b r c \<noteq> 0 \<longrightarrow> cell b r c = cell s r c) positions"

text \<open>
  The 27 units: nine rows, nine columns, nine boxes, each as its list of positions.
  A grid is solved when the cells of every unit are a permutation of 1..9.
\<close>

definition row_positions :: "nat \<Rightarrow> (nat \<times> nat) list" where
  "row_positions r = map (\<lambda>c. (r, c)) [0..<9]"

definition col_positions :: "nat \<Rightarrow> (nat \<times> nat) list" where
  "col_positions c = map (\<lambda>r. (r, c)) [0..<9]"

definition box_positions :: "nat \<Rightarrow> (nat \<times> nat) list" where
  "box_positions k =
     concat (map (\<lambda>i. map (\<lambda>j. (3 * (k div 3) + i, 3 * (k mod 3) + j)) [0..<3]) [0..<3])"

definition units :: "(nat \<times> nat) list list" where
  "units = map row_positions [0..<9] @ map col_positions [0..<9] @ map box_positions [0..<9]"

definition cells_at :: "grid \<Rightarrow> (nat \<times> nat) list \<Rightarrow> nat list" where
  "cells_at b ps = map (\<lambda>(r, c). cell b r c) ps"

definition is_perm_1_9 :: "nat list \<Rightarrow> bool" where
  "is_perm_1_9 xs = (mset xs = mset [1, 2, 3, 4, 5, 6, 7, 8, 9])"

definition solved_grid :: "grid \<Rightarrow> bool" where
  "solved_grid b = list_all (\<lambda>u. is_perm_1_9 (cells_at b u)) units"

text \<open>
  \<open>stuck_board\<close>: the first empty cell (0,0) accepts 1 and 2, but then (0,1) needs the
  other of the two, and column 1 already holds both.
\<close>

definition stuck_board :: grid where
  "stuck_board =
     empty_board[0 := [0, 0, 3, 4, 5, 6, 7, 8, 9], 3 := [0, 1, 0, 0, 0, 0, 0, 0, 0],
       4 := [0, 2, 0, 0, 0, 0, 0, 0, 0]]"

section \<open>Basic facts about boards\<close>

lemma set_positions: "set positions = {0..<9} \<times> {0..<9}"
  by (auto simp: positions_def)

lemma in_positions: "(r, c) \<in> set positions \<longleftrightarrow> r < 9 \<and> c < 9"
  by (simp add: set_positions)

lemma distinct_positions: "distinct positions"
  unfolding positions_def
  by (rule distinct_concat) (auto simp: distinct_map inj_on_def)

lemma grid9_row: "grid9 b \<Longrightarrow> r < 9 \<Longrightarrow> length (b ! r) = 9"
  by (simp add: grid9_def list_all_length)

lemma grid9_set_cell:
  assumes "grid9 b"
  shows "grid9 (set_cell b r c v)"
proof -
  have "length ((b[r := (b ! r)[c := v]]) ! n) = 9" if "n < 9" for n
  proof (cases "n = r")
    case True
    then show ?thesis using assms that by (simp add: grid9_def list_all_length)
  next
    case False
    then show ?thesis using assms that by (simp add: grid9_def list_all_length)
  qed
  then show ?thesis
    using assms by (simp add: grid9_def set_cell_def list_all_length)
qed

lemma cell_set_cell:
  "grid9 b \<Longrightarrow> r < 9 \<Longrightarrow> c < 9 \<Longrightarrow>
   cell (set_cell b r c v) r' c' = (if r' = r \<and> c' = c then v else cell b r' c')"
  by (auto simp: cell_def set_cell_def grid9_def list_all_length nth_list_update)

lemma grid_eqI:
  assumes "grid9 a" "grid9 b" "\<And>r c. r < 9 \<Longrightarrow> c < 9 \<Longrightarrow> cell a r c = cell b r c"
  shows "a = b"
proof (rule nth_equalityI)
  show "length a = length b" using assms(1,2) by (simp add: grid9_def)
next
  fix r assume "r < length a"
  then have r: "r < 9" using assms(1) by (simp add: grid9_def)
  show "a ! r = b ! r"
  proof (rule nth_equalityI)
    show "length (a ! r) = length (b ! r)"
      using r assms(1,2) by (simp add: grid9_row)
  next
    fix c assume "c < length (a ! r)"
    then have "c < 9" using r assms(1) by (simp add: grid9_row)
    then show "a ! r ! c = b ! r ! c" using assms(3)[OF r] by (simp add: cell_def)
  qed
qed

lemma set_cell_restore:
  assumes "grid9 b" "r < 9" "c < 9"
  shows "set_cell (set_cell b r c v) r c (cell b r c) = b"
  by (rule grid_eqI) (auto simp: assms grid9_set_cell cell_set_cell)

lemma find_empty_Some:
  "find_empty b = Some (r, c) \<Longrightarrow> r < 9 \<and> c < 9 \<and> cell b r c = 0"
proof -
  assume "find_empty b = Some (r, c)"
  then obtain i where i: "i < length positions" "positions ! i = (r, c)" "cell b r c = 0"
    unfolding find_empty_def find_Some_iff by auto
  from i(1,2) have "(r, c) \<in> set positions"
    by (metis nth_mem)
  with i(3) show ?thesis by (simp add: in_positions)
qed

lemma find_empty_None:
  "find_empty b = None \<longleftrightarrow> (\<forall>r<9. \<forall>c<9. cell b r c \<noteq> 0)"
  by (auto simp: find_empty_def find_None_iff set_positions)

lemma full_iff: "full b \<longleftrightarrow> (\<forall>r<9. \<forall>c<9. cell b r c \<noteq> 0)"
  by (auto simp: full_def list_all_iff set_positions)

lemma emptyCount_card: "emptyCount b = card {(r, c). r < 9 \<and> c < 9 \<and> cell b r c = 0}"
proof -
  have "{x. case x of (r, c) \<Rightarrow> cell b r c = 0} \<inter> set positions
        = {(r, c). r < 9 \<and> c < 9 \<and> cell b r c = 0}"
    by (auto simp: set_positions)
  then show ?thesis
    by (simp add: emptyCount_def distinct_length_filter[OF distinct_positions])
qed

lemma grid9_empty_board: "grid9 empty_board"
  by (simp add: grid9_def empty_board_def list_all_iff)

lemma cell_empty_board: "r < 9 \<Longrightarrow> c < 9 \<Longrightarrow> cell empty_board r c = 0"
  by (simp add: cell_def empty_board_def)

section \<open>isValid\<close>

lemma box_index: "r' div 3 = k \<longleftrightarrow> (\<exists>i<3. r' = k * 3 + i)" for r' k :: nat
  by presburger

lemma units:
  assumes "row < 9" "col < 9"
  shows "(\<forall>r<9. \<forall>c<9. same_unit row col r c \<longrightarrow> cell b r c \<noteq> num) \<longleftrightarrow>
     \<not> (\<exists>c<9. cell b row c = num) \<and> \<not> (\<exists>r<9. cell b r col = num)
     \<and> \<not> (\<exists>r<9. \<exists>c<9. r div 3 = row div 3 \<and> c div 3 = col div 3 \<and> cell b r c = num)"
  (is "?A \<longleftrightarrow> ?B")
proof
  assume a: ?A
  have "cell b row c \<noteq> num" if "c < 9" for c
    using a assms that by (simp add: same_unit_def)
  moreover have "cell b r col \<noteq> num" if "r < 9" for r
    using a assms that by (simp add: same_unit_def)
  moreover have "cell b r c \<noteq> num"
    if "r < 9" "c < 9" "r div 3 = row div 3" "c div 3 = col div 3" for r c
    using a that by (simp add: same_unit_def)
  ultimately show ?B by blast
next
  assume b: ?B
  show ?A
  proof (intro allI impI)
    fix r c assume "r < 9" "c < 9" "same_unit row col r c"
    then show "cell b r c \<noteq> num"
      using b unfolding same_unit_def by metis
  qed
qed

lemma isValid_iff:
  assumes "row < 9" "col < 9"
  shows "isValid b row col num \<longleftrightarrow>
         (\<forall>r<9. \<forall>c<9. same_unit row col r c \<longrightarrow> cell b r c \<noteq> num)"
proof -
  have rowscan: "list_ex (\<lambda>c. cell b row c = num) [0..<9] \<longleftrightarrow> (\<exists>c<9. cell b row c = num)"
    by (auto simp: list_ex_iff)
  have colscan: "list_ex (\<lambda>r. cell b r col = num) [0..<9] \<longleftrightarrow> (\<exists>r<9. cell b r col = num)"
    by (auto simp: list_ex_iff)
  have boxscan:
    "list_ex (\<lambda>r. list_ex (\<lambda>c. cell b (row div 3 * 3 + r) (col div 3 * 3 + c) = num) [0..<3]) [0..<3]
     \<longleftrightarrow> (\<exists>r<9. \<exists>c<9. r div 3 = row div 3 \<and> c div 3 = col div 3 \<and> cell b r c = num)"
    (is "?L \<longleftrightarrow> ?R")
  proof
    assume ?L
    then obtain i j where ij: "i < 3" "j < 3"
      and v: "cell b (row div 3 * 3 + i) (col div 3 * 3 + j) = num"
      by (auto simp: list_ex_iff)
    have "row div 3 * 3 + i < 9" "col div 3 * 3 + j < 9"
      "(row div 3 * 3 + i) div 3 = row div 3" "(col div 3 * 3 + j) div 3 = col div 3"
      using ij assms by presburger+
    with v show ?R by blast
  next
    assume ?R
    then obtain r c where rc: "r div 3 = row div 3" "c div 3 = col div 3" "cell b r c = num"
      by blast
    from rc(1) obtain i where i: "i < 3" "r = row div 3 * 3 + i"
      using box_index[of r "row div 3"] by blast
    from rc(2) obtain j where j: "j < 3" "c = col div 3 * 3 + j"
      using box_index[of c "col div 3"] by blast
    from i j rc(3) show ?L unfolding list_ex_iff by fastforce
  qed
  have chain: "(if A then False else if B then False else if C then False else True)
      \<longleftrightarrow> \<not> A \<and> \<not> B \<and> \<not> C" for A B C
    by simp
  show ?thesis
    unfolding isValid_def Let_def rowscan colscan boxscan units[OF assms] by (rule chain)
qed

lemma appears_elsewhere_iff:
  "appears_elsewhere b row col v \<longleftrightarrow>
   (\<exists>r<9. \<exists>c<9. (r, c) \<noteq> (row, col) \<and> same_unit row col r c \<and> cell b r c = v)"
proof -
  have "(\<exists>p\<in>{0..<9} \<times> {0..<9}. Q (fst p) (snd p)) \<longleftrightarrow> (\<exists>r<9. \<exists>c<9. Q r c)"
    for Q :: "nat \<Rightarrow> nat \<Rightarrow> bool"
    by fastforce
  from this[of "\<lambda>r c. (r, c) \<noteq> (row, col) \<and> same_unit row col r c \<and> cell b r c = v"]
  show ?thesis
    by (simp add: appears_elsewhere_def list_ex_iff set_positions case_prod_beta)
qed

lemma same_unit_refl: "same_unit r c r c"
  by (simp add: same_unit_def)

lemma same_unit_sym: "same_unit r c r' c' \<Longrightarrow> same_unit r' c' r c"
  by (auto simp: same_unit_def)

text \<open>
  C2, as amended. \<open>isValid\<close> returns false exactly when the value occurs in the row,
  the column or the box of the target position, the target cell included: it returns
  false when the target cell already holds the value, and otherwise it returns false
  if and only if the value occurs in one of the three units at another cell.
\<close>

theorem isValid_false_iff:
  assumes "row < 9" "col < 9"
  shows "(isValid b row col v = False) \<longleftrightarrow>
         (cell b row col = v \<or> appears_elsewhere b row col v)"
proof -
  have "(\<exists>r<9. \<exists>c<9. same_unit row col r c \<and> cell b r c = v) \<longleftrightarrow>
        (cell b row col = v \<or>
         (\<exists>r<9. \<exists>c<9. (r, c) \<noteq> (row, col) \<and> same_unit row col r c \<and> cell b r c = v))"
    using assms same_unit_refl[of row col] by (metis prod.inject)
  then show ?thesis
    unfolding isValid_iff[OF assms] appears_elsewhere_iff by blast
qed

theorem isValid_false_iff_witness:
  "(0::nat) < 9 \<and> (isValid board_only_5 0 0 5 = False) \<and> cell board_only_5 0 0 = 5
   \<and> (isValid board_only_5 0 1 5 = False) \<and> cell board_only_5 0 1 \<noteq> 5
   \<and> appears_elsewhere board_only_5 0 1 5
   \<and> isValid board_only_5 4 4 5 \<and> \<not> appears_elsewhere board_only_5 4 4 5"
  using isValid_false_iff[of 0 0 board_only_5 5] isValid_false_iff[of 0 1 board_only_5 5]
    isValid_false_iff[of 4 4 board_only_5 5]
  by code_simp

text \<open>
  C2, as stated, fails where the target cell itself holds the value: on the board
  whose only filled cell is a 5 at (0,0), \<open>isValid\<close> rejects 5 at (0,0) although no
  other cell of the row, the column or the box holds a 5.
\<close>

theorem isValid_target_cell_counterexample:
  "grid9 board_only_5 \<and> isValid board_only_5 0 0 5 = False
   \<and> \<not> appears_elsewhere board_only_5 0 0 5"
  by code_simp

section \<open>getCellsToRemove\<close>

text \<open>
  C9. The lookup gives 30 for easy, 45 for medium, 55 for hard, and 30 for every
  other difficulty value.
\<close>

theorem getCellsToRemove_table:
  "getCellsToRemove ''easy'' = 30 \<and> getCellsToRemove ''medium'' = 45
   \<and> getCellsToRemove ''hard'' = 55
   \<and> (d \<noteq> ''easy'' \<and> d \<noteq> ''medium'' \<and> d \<noteq> ''hard'' \<longrightarrow> getCellsToRemove d = 30)"
  by (simp add: getCellsToRemove_def)

theorem getCellsToRemove_table_witness:
  "''expert'' \<noteq> ''easy'' \<and> ''expert'' \<noteq> ''medium'' \<and> ''expert'' \<noteq> ''hard''
   \<and> getCellsToRemove ''expert'' = 30 \<and> getCellsToRemove [] = 30"
  using getCellsToRemove_table[of "''expert''"] getCellsToRemove_table[of "[]"]
  by simp

section \<open>Counting empty cells\<close>

lemma length_positions: "length positions = 81"
  by code_simp

lemma emptyCount_le: "emptyCount b \<le> 81"
  using length_filter_le[of "\<lambda>(r, c). cell b r c = 0" positions]
  by (simp add: emptyCount_def length_positions)

lemma emptyCount_full: "full b \<longleftrightarrow> emptyCount b = 0"
  by (auto simp: full_def emptyCount_def list_all_iff filter_empty_conv)

lemma finite_empties: "finite {(r, c). r < 9 \<and> c < 9 \<and> cell b r c = 0}"
  by (rule finite_subset[of _ "{0..<9} \<times> {0..<9}"]) auto

lemma emptyCount_fill:
  assumes "grid9 b" "r < 9" "c < 9" "cell b r c = 0" "v \<noteq> 0"
  shows "Suc (emptyCount (set_cell b r c v)) = emptyCount b"
proof -
  let ?Z = "{(r, c). r < 9 \<and> c < 9 \<and> cell b r c = 0}"
  have "{(r', c'). r' < 9 \<and> c' < 9 \<and> cell (set_cell b r c v) r' c' = 0} = ?Z - {(r, c)}"
    using assms by (auto simp: cell_set_cell)
  moreover have "(r, c) \<in> ?Z" using assms by simp
  then have "Suc (card (?Z - {(r, c)})) = card ?Z"
    by (rule card_Suc_Diff1[OF finite_empties])
  ultimately show ?thesis
    by (simp only: emptyCount_card)
qed

lemma emptyCount_clear:
  assumes "grid9 b" "r < 9" "c < 9" "cell b r c \<noteq> 0"
  shows "emptyCount (set_cell b r c 0) = Suc (emptyCount b)"
proof -
  let ?Z = "{(r, c). r < 9 \<and> c < 9 \<and> cell b r c = 0}"
  have "{(r', c'). r' < 9 \<and> c' < 9 \<and> cell (set_cell b r c 0) r' c' = 0} = insert (r, c) ?Z"
    using assms by (auto simp: cell_set_cell)
  moreover have "(r, c) \<notin> ?Z" using assms by simp
  ultimately show ?thesis
    using finite_empties[of b] by (simp add: emptyCount_card)
qed

lemma set_cell_undo:
  assumes "grid9 b" "r < 9" "c < 9" "cell b r c = 0"
  shows "set_cell (set_cell b r c v) r c 0 = b"
  using set_cell_restore[OF assms(1-3), of v] assms(4) by simp

section \<open>The uniqueness search\<close>

text \<open>
  The search returns, and returns the board it was given, whenever the depth bound
  exceeds the number of empty cells: each trial write is undone by the
  \<open>b[row][col] = 0\<close> that follows the recursive call.
\<close>

lemma solve_frame:
  "grid9 b \<Longrightarrow> emptyCount b < n \<Longrightarrow> \<exists>s'. solve n b s = Some (b, s')"
  "grid9 b \<Longrightarrow> row < 9 \<Longrightarrow> col < 9 \<Longrightarrow> cell b row col = 0 \<Longrightarrow> 0 \<notin> set nums \<Longrightarrow>
   emptyCount b \<le> n \<Longrightarrow> \<exists>s'. solve_nums n nums row col b s = Some (b, s')"
proof (induction n b s and n nums row col b s rule: solve_solve_nums.induct)
  case (1 b solutions)
  then show ?case by simp
next
  case (2 n b solutions)
  show ?case
  proof (cases "find_empty b")
    case None
    then show ?thesis by simp
  next
    case (Some p)
    obtain row col where p: "p = (row, col)" by (cases p)
    from Some p have e: "row < 9" "col < 9" "cell b row col = 0"
      using find_empty_Some[of b row col] by simp_all
    have "\<exists>s'. solve_nums n [1, 2, 3, 4, 5, 6, 7, 8, 9] row col b solutions = Some (b, s')"
      if "\<not> 1 < solutions"
      using "2.IH"[OF that Some p[symmetric] "2.prems"(1) e] "2.prems"(2) by simp
    then show ?thesis using Some p by simp
  qed
next
  case (3 n row col b solutions)
  then show ?case by simp
next
  case (4 n num rest row col b solutions)
  have num: "num \<noteq> 0" and rest: "0 \<notin> set rest" using "4.prems"(5) by auto
  show ?case
  proof (cases "isValid b row col num")
    case False
    then show ?thesis
      using "4.IH"(3)[OF False "4.prems"(1-4) rest "4.prems"(6)] by simp
  next
    case True
    let ?b1 = "set_cell b row col num"
    have g1: "grid9 ?b1" using "4.prems"(1) by (rule grid9_set_cell)
    have "Suc (emptyCount ?b1) = emptyCount b"
      using "4.prems"(1-4) num by (rule emptyCount_fill)
    then have "emptyCount ?b1 < n" using "4.prems"(6) by simp
    from "4.IH"(1)[OF True g1 this] obtain s1 where s1: "solve n ?b1 solutions = Some (?b1, s1)"
      by blast
    have undo: "set_cell ?b1 row col 0 = b"
      using "4.prems"(1-4) by (rule set_cell_undo)
    from "4.IH"(2)[OF True s1 refl, unfolded undo, OF "4.prems"(1-4) rest "4.prems"(6)]
    show ?thesis using True s1 undo by simp
  qed
qed

text \<open>The counter never decreases and never passes 2.\<close>

lemma solve_counter:
  "solve n b s = Some (b', s') \<Longrightarrow> s \<le> s' \<and> (s \<le> 2 \<longrightarrow> s' \<le> 2)"
  "solve_nums n nums row col b s = Some (b', s') \<Longrightarrow> s \<le> s' \<and> (s \<le> 2 \<longrightarrow> s' \<le> 2)"
proof (induction n b s and n nums row col b s arbitrary: b' s' and b' s'
    rule: solve_solve_nums.induct)
  case (1 b solutions)
  then show ?case by simp
next
  case (2 n b solutions)
  then show ?case
    by (auto split: if_splits option.splits)
next
  case (3 n row col b solutions)
  then show ?case by simp
next
  case (4 n num rest row col b solutions)
  show ?case
  proof (cases "isValid b row col num")
    case False
    then show ?thesis using "4.IH"(3)[OF False] "4.prems" by simp
  next
    case True
    from True "4.prems" obtain b1 s1 where
      s1: "solve n (set_cell b row col num) solutions = Some (b1, s1)"
      and rest: "solve_nums n rest row col (set_cell b1 row col 0) s1 = Some (b', s')"
      by (auto split: option.splits)
    from "4.IH"(1)[OF True s1] "4.IH"(2)[OF True s1 refl rest]
    show ?thesis by auto
  qed
qed

lemma solve_early_exit: "1 < s \<Longrightarrow> solve (Suc n) b s = Some (b, s)"
  by simp

lemma solve_total:
  assumes "grid9 b"
  shows "\<exists>s'. solve depth_bound b s = Some (b, s')"
  using solve_frame(1)[OF assms, of depth_bound s] emptyCount_le[of b]
  by (simp add: depth_bound_def)

lemma hasUniqueSolution_frame:
  assumes "grid9 b"
  shows "\<exists>u. hasUniqueSolution b = Some (u, b)"
  using solve_total[OF assms, of 0] by (auto simp: hasUniqueSolution_def)

lemma hasUniqueSolution_full:
  assumes "full b"
  shows "hasUniqueSolution b = Some (True, b)"
proof -
  have "find_empty b = None" using assms by (simp add: find_empty_None full_iff)
  then have "solve depth_bound b 0 = Some (b, 1)"
    using solve.simps(2)[of 81 b 0] by (simp add: depth_bound_def)
  then show ?thesis by (simp add: hasUniqueSolution_def)
qed

text \<open>
  C4. For every 9x9 grid, \<open>hasUniqueSolution\<close> returns and leaves the grid it searched
  identical to the grid it was given.
\<close>

theorem hasUniqueSolution_restores_grid:
  assumes "grid9 b"
  shows "\<exists>u. hasUniqueSolution b = Some (u, b)"
  using assms by (rule hasUniqueSolution_frame)

theorem hasUniqueSolution_restores_grid_witness:
  "grid9 two_way_board \<and> (\<exists>u. hasUniqueSolution two_way_board = Some (u, two_way_board))
   \<and> hasUniqueSolution two_way_board = Some (False, two_way_board)
   \<and> grid9 dead_board \<and> (\<exists>u. hasUniqueSolution dead_board = Some (u, dead_board))
   \<and> hasUniqueSolution dead_board = Some (False, dead_board)"
proof -
  have g: "grid9 two_way_board" "grid9 dead_board" by code_simp+
  have e: "hasUniqueSolution two_way_board = Some (False, two_way_board)"
    "hasUniqueSolution dead_board = Some (False, dead_board)"
    by code_simp+
  show ?thesis
    using hasUniqueSolution_restores_grid[OF g(1)] hasUniqueSolution_restores_grid[OF g(2)] g e
    by simp
qed

text \<open>
  C5. Run from a counter of 0 on a 9x9 grid, the search returns with the counter in
  \<open>{0, 1, 2}\<close>; a call entered with the counter above 1 returns at once, leaving
  board and counter as they are; and any call entered with a counter of at most 2
  returns a counter of at most 2, so the counter never reaches 3.
\<close>

theorem solve_counter_at_most_2:
  assumes "grid9 b"
  shows "(\<exists>s'. solve depth_bound b 0 = Some (b, s') \<and> s' \<in> {0, 1, 2})
         \<and> (1 < s \<longrightarrow> solve (Suc n) c s = Some (c, s))
         \<and> (s0 \<le> 2 \<and> solve m c0 s0 = Some (c1, s1) \<longrightarrow> s0 \<le> s1 \<and> s1 \<le> 2)"
proof -
  from solve_total[OF assms, of 0] obtain s' where s': "solve depth_bound b 0 = Some (b, s')"
    by blast
  from solve_counter(1)[OF s'] have "s' \<le> 2" by simp
  then have "s' \<in> {0, 1, 2}" by auto
  with s' have "\<exists>s'. solve depth_bound b 0 = Some (b, s') \<and> s' \<in> {0, 1, 2}" by blast
  moreover have "1 < s \<longrightarrow> solve (Suc n) c s = Some (c, s)"
    by (simp add: solve_early_exit)
  moreover have "s0 \<le> 2 \<and> solve m c0 s0 = Some (c1, s1) \<longrightarrow> s0 \<le> s1 \<and> s1 \<le> 2"
    using solve_counter(1)[of m c0 s0 c1 s1] by blast
  ultimately show ?thesis by (intro conjI)
qed

theorem solve_counter_at_most_2_witness:
  "grid9 two_way_board
   \<and> (\<exists>s'. solve depth_bound two_way_board 0 = Some (two_way_board, s') \<and> s' \<in> {0, 1, 2})
   \<and> solve depth_bound two_way_board 0 = Some (two_way_board, 2)
   \<and> (1::nat) < 2 \<and> solve (Suc 0) solved_board 2 = Some (solved_board, 2)
   \<and> (1::nat) \<le> 2 \<and> solve depth_bound two_way_board 1 = Some (two_way_board, 2)"
proof -
  have g: "grid9 two_way_board" by code_simp
  have e: "solve depth_bound two_way_board 0 = Some (two_way_board, 2)"
    "solve depth_bound two_way_board 1 = Some (two_way_board, 2)"
    by code_simp+
  note t = solve_counter_at_most_2[OF g,
      of 2 0 solved_board 1 depth_bound two_way_board two_way_board 2]
  from t have t1: "\<exists>s'. solve depth_bound two_way_board 0 = Some (two_way_board, s') \<and> s' \<in> {0, 1, 2}"
    by (rule conjunct1)
  from t have t2: "solve (Suc 0) solved_board 2 = Some (solved_board, 2)"
    by simp
  have n: "(1::nat) < 2" "(1::nat) \<le> 2" by simp_all
  show ?thesis
    by (intro conjI g t1 e t2 n)
qed

text \<open>
  C10. For every completely filled 9x9 grid, \<open>hasUniqueSolution\<close> returns true, whether
  or not the grid obeys the row, column and box constraints.
\<close>

theorem hasUniqueSolution_full_grid:
  assumes "grid9 b" "full b"
  shows "hasUniqueSolution b = Some (True, b)"
  using assms(2) by (rule hasUniqueSolution_full)

theorem hasUniqueSolution_full_grid_witness:
  "grid9 board_all_1 \<and> full board_all_1 \<and> cell board_all_1 0 0 = cell board_all_1 0 1
   \<and> hasUniqueSolution board_all_1 = Some (True, board_all_1)"
proof -
  have g: "grid9 board_all_1" "full board_all_1" "cell board_all_1 0 0 = cell board_all_1 0 1"
    by code_simp+
  show ?thesis
    using hasUniqueSolution_full_grid[OF g(1,2)] g by simp
qed

section \<open>shuffleArray\<close>

text \<open>The shuffle only swaps cells, so it returns a permutation of its input.\<close>

lemma shuffle_from_mset:
  "k < length xs \<Longrightarrow> mset (fst (shuffle_from k xs g)) = mset xs"
proof (induction k arbitrary: xs g)
  case 0
  then show ?case by simp
next
  case (Suc k)
  let ?j = "g 0 mod (Suc k + 1)"
  let ?xs = "xs[Suc k := xs ! ?j, ?j := xs ! Suc k]"
  have j: "?j < length xs"
    using Suc.prems mod_less_divisor[of "Suc k + 1" "g 0"] by linarith
  have "mset ?xs = mset xs"
    using j Suc.prems by (rule mset_swap)
  moreover have "k < length ?xs" using Suc.prems by simp
  ultimately show ?case
    using Suc.IH[of ?xs "\<lambda>n. g (Suc n)"] by (simp add: random_index_def)
qed

lemma shuffleArray_mset: "mset (fst (shuffleArray xs g)) = mset xs"
proof (cases xs)
  case Nil
  then show ?thesis by (simp add: shuffleArray_def)
next
  case (Cons x ys)
  then show ?thesis by (simp add: shuffleArray_def shuffle_from_mset)
qed

lemma shuffleArray_set: "set (fst (shuffleArray xs g)) = set xs"
  using shuffleArray_mset[of xs g] by (rule mset_eq_setD)

section \<open>createPuzzle\<close>

lemma set_cell_same:
  assumes "grid9 b" "r < 9" "c < 9"
  shows "set_cell b r c (cell b r c) = b"
  by (rule grid_eqI) (auto simp: assms grid9_set_cell cell_set_cell)

lemma emptyCount_clear_le:
  assumes "grid9 b" "r < 9" "c < 9"
  shows "emptyCount (set_cell b r c 0) \<le> Suc (emptyCount b)"
proof (cases "cell b r c = 0")
  case True
  then show ?thesis using set_cell_same[OF assms] by simp
next
  case False
  then show ?thesis using emptyCount_clear[OF assms] by simp
qed

lemma cell_clear_cases:
  assumes "grid9 b" "r < 9" "c < 9"
  shows "cell (set_cell b r c 0) r' c' = cell b r' c' \<or> cell (set_cell b r c 0) r' c' = 0"
  by (simp add: cell_set_cell[OF assms])

text \<open>
  The loop, from any state: it returns; what it returns differs from the board it
  started on only in cells set to 0; it clears at most as many cells as the target
  still allows; and it passes the uniqueness test if the board it started on does.
\<close>

lemma createPuzzle_loop_props:
  assumes "grid9 board" "\<forall>i\<in>set attempts. i < 81"
  shows "\<exists>b'. createPuzzle_loop n attempts removed board = Some b' \<and> grid9 b'
      \<and> (\<forall>r<9. \<forall>c<9. cell b' r c = cell board r c \<or> cell b' r c = 0)
      \<and> emptyCount b' \<le> emptyCount board + (n - removed)
      \<and> (hasUniqueSolution board = Some (True, board)
           \<longrightarrow> hasUniqueSolution b' = Some (True, b'))"
  using assms
proof (induction attempts arbitrary: removed board)
  case Nil
  then show ?case by simp
next
  case (Cons index rest)
  show ?case
  proof (cases "removed < n")
    case False
    then show ?thesis using Cons.prems(1) by simp
  next
    case True
    let ?row = "index div 9" and ?col = "index mod 9"
    let ?b1 = "set_cell board ?row ?col 0"
    have "index < 81" using Cons.prems(2) by simp
    then have rc: "?row < 9" "?col < 9" by simp_all
    have rest: "\<forall>i\<in>set rest. i < 81" using Cons.prems(2) by simp
    have g1: "grid9 ?b1" using Cons.prems(1) by (rule grid9_set_cell)
    from hasUniqueSolution_frame[OF g1] obtain u where u: "hasUniqueSolution ?b1 = Some (u, ?b1)"
      by blast
    show ?thesis
    proof (cases u)
      case True
      from Cons.IH[OF g1 rest, of "removed + 1"] obtain b' where
        b': "createPuzzle_loop n rest (removed + 1) ?b1 = Some b'" "grid9 b'"
          "\<forall>r<9. \<forall>c<9. cell b' r c = cell ?b1 r c \<or> cell b' r c = 0"
          "emptyCount b' \<le> emptyCount ?b1 + (n - (removed + 1))"
          "hasUniqueSolution ?b1 = Some (True, ?b1) \<longrightarrow> hasUniqueSolution b' = Some (True, b')"
        by blast
      have run: "createPuzzle_loop n (index # rest) removed board = Some b'"
        using \<open>removed < n\<close> u True b'(1) by (simp add: Let_def)
      have sub: "\<forall>r<9. \<forall>c<9. cell b' r c = cell board r c \<or> cell b' r c = 0"
      proof (intro allI impI)
        fix r c :: nat assume r: "r < 9" and c: "c < 9"
        note b'(3)[rule_format, OF r c]
        moreover note cell_clear_cases[OF Cons.prems(1) rc, of r c]
        ultimately show "cell b' r c = cell board r c \<or> cell b' r c = 0"
          by (elim disjE) simp_all
      qed
      have cnt: "emptyCount b' \<le> emptyCount board + (n - removed)"
        using b'(4) emptyCount_clear_le[OF Cons.prems(1) rc] \<open>removed < n\<close> by linarith
      have uniq: "hasUniqueSolution b' = Some (True, b')"
        using b'(5) u True by simp
      from run b'(2) sub cnt uniq show ?thesis by simp
    next
      case False
      have undone: "set_cell ?b1 ?row ?col (cell board ?row ?col) = board"
        using Cons.prems(1) rc by (rule set_cell_restore)
      have run: "createPuzzle_loop n (index # rest) removed board
                 = createPuzzle_loop n rest removed board"
        using \<open>removed < n\<close> u False undone by (simp add: Let_def)
      show ?thesis
        unfolding run using Cons.IH[OF Cons.prems(1) rest, of removed] .
    qed
  qed
qed

lemma createPuzzle_loop_zero: "createPuzzle_loop 0 attempts 0 board = Some board"
  by (cases attempts) simp_all

lemma attempts_below_81: "\<forall>i\<in>set (fst (shuffleArray [0..<81] g)). i < 81"
  by (simp add: shuffleArray_set)

lemma createPuzzle_unfold:
  "createPuzzle d board g =
     (case createPuzzle_loop (getCellsToRemove d) (fst (shuffleArray [0..<81] g)) 0 board of
        None \<Rightarrow> None
      | Some board' \<Rightarrow> Some (board', snd (shuffleArray [0..<81] g)))"
  by (simp add: createPuzzle_def Let_def case_prod_beta)

lemma createPuzzle_props:
  assumes "grid9 board"
  shows "\<exists>b' g'. createPuzzle d board g = Some (b', g') \<and> grid9 b'
      \<and> (\<forall>r<9. \<forall>c<9. cell b' r c = cell board r c \<or> cell b' r c = 0)
      \<and> emptyCount b' \<le> emptyCount board + getCellsToRemove d
      \<and> (hasUniqueSolution board = Some (True, board)
           \<longrightarrow> hasUniqueSolution b' = Some (True, b'))"
proof -
  from createPuzzle_loop_props[OF assms attempts_below_81, of "getCellsToRemove d" g 0]
  obtain b' where
    b': "createPuzzle_loop (getCellsToRemove d) (fst (shuffleArray [0..<81] g)) 0 board = Some b'"
      "grid9 b'" "\<forall>r<9. \<forall>c<9. cell b' r c = cell board r c \<or> cell b' r c = 0"
      "emptyCount b' \<le> emptyCount board + (getCellsToRemove d - 0)"
      "hasUniqueSolution board = Some (True, board) \<longrightarrow> hasUniqueSolution b' = Some (True, b')"
    by blast
  have "createPuzzle d board g = Some (b', snd (shuffleArray [0..<81] g))"
    by (simp add: createPuzzle_unfold b'(1))
  with b'(2-5) show ?thesis by simp
qed

lemma full_unique:
  assumes "full b"
  shows "hasUniqueSolution b = Some (True, b)"
  using assms by (rule hasUniqueSolution_full)

lemma unique_counter:
  "hasUniqueSolution b = Some (True, b') \<Longrightarrow> solve depth_bound b 0 = Some (b', 1)"
  by (auto simp: hasUniqueSolution_def split: option.splits)

lemma full_emptyCount: "full b \<Longrightarrow> emptyCount b = 0"
  by (simp add: emptyCount_full)

lemma only_cleared_subset:
  assumes "\<forall>r<9. \<forall>c<9. cell b' r c = cell b r c \<or> cell b' r c = 0"
  shows "\<forall>r<9. \<forall>c<9. cell b' r c \<noteq> 0 \<longrightarrow> cell b' r c = cell b r c"
proof (intro allI impI)
  fix r c :: nat assume "r < 9" "c < 9" "cell b' r c \<noteq> 0"
  with assms[rule_format, of r c] show "cell b' r c = cell b r c" by simp
qed

text \<open>
  C1. Given a completely filled 9x9 grid, the grid returned by the removal loop, for
  any target count and any visiting order, and so the grid returned by \<open>createPuzzle\<close>
  for any difficulty and any random source, passes the uniqueness test: the search
  run on it ends with the counter at exactly 1, and \<open>hasUniqueSolution\<close> returns true.
\<close>

theorem createPuzzle_result_unique:
  assumes "grid9 solved" "full solved" "list_all (\<lambda>i. i < 81) attempts"
  shows "(\<exists>b'. createPuzzle_loop n attempts 0 solved = Some b'
              \<and> solve depth_bound b' 0 = Some (b', 1)
              \<and> hasUniqueSolution b' = Some (True, b'))
       \<and> (\<exists>b' g'. createPuzzle d solved g = Some (b', g')
              \<and> solve depth_bound b' 0 = Some (b', 1)
              \<and> hasUniqueSolution b' = Some (True, b'))"
proof -
  have a: "\<forall>i\<in>set attempts. i < 81" using assms(3) by (simp add: list_all_iff)
  from createPuzzle_loop_props[OF assms(1) a, of n 0]
  obtain b1 where b1: "createPuzzle_loop n attempts 0 solved = Some b1"
    "hasUniqueSolution solved = Some (True, solved) \<longrightarrow> hasUniqueSolution b1 = Some (True, b1)"
    by (elim exE conjE)
  from createPuzzle_props[OF assms(1), of d g]
  obtain b2 g2 where b2: "createPuzzle d solved g = Some (b2, g2)"
    "hasUniqueSolution solved = Some (True, solved) \<longrightarrow> hasUniqueSolution b2 = Some (True, b2)"
    by (elim exE conjE)
  note u = full_unique[OF assms(2)]
  from b1 u have u1: "hasUniqueSolution b1 = Some (True, b1)" by (rule_tac mp)
  from b2 u have u2: "hasUniqueSolution b2 = Some (True, b2)" by (rule_tac mp)
  have "\<exists>b'. createPuzzle_loop n attempts 0 solved = Some b'
              \<and> solve depth_bound b' 0 = Some (b', 1)
              \<and> hasUniqueSolution b' = Some (True, b')"
    by (intro exI[of _ b1] conjI b1(1) u1 unique_counter[OF u1])
  moreover have "\<exists>b' g'. createPuzzle d solved g = Some (b', g')
              \<and> solve depth_bound b' 0 = Some (b', 1)
              \<and> hasUniqueSolution b' = Some (True, b')"
    by (intro exI[of _ b2] exI[of _ g2] conjI b2(1) u2 unique_counter[OF u2])
  ultimately show ?thesis by (rule conjI)
qed

theorem createPuzzle_result_unique_witness:
  "grid9 solved_board \<and> full solved_board \<and> list_all (\<lambda>i. i < 81) [0, 1, 27, 28, 80 :: nat]
   \<and> (\<exists>b'. createPuzzle_loop 4 [0, 1, 27, 28, 80 :: nat] 0 solved_board = Some b'
              \<and> solve depth_bound b' 0 = Some (b', 1)
              \<and> hasUniqueSolution b' = Some (True, b'))
   \<and> (\<exists>b' g'. createPuzzle ''hard'' solved_board (\<lambda>_. 0) = Some (b', g')
              \<and> solve depth_bound b' 0 = Some (b', 1)
              \<and> hasUniqueSolution b' = Some (True, b'))
   \<and> createPuzzle_loop 4 [0, 1, 27, 28, 80 :: nat] 0 solved_board = Some puzzle_board
   \<and> hasUniqueSolution puzzle_board = Some (True, puzzle_board)"
proof -
  have h: "grid9 solved_board" "full solved_board" "list_all (\<lambda>i. i < 81) [0, 1, 27, 28, 80 :: nat]"
    by code_simp+
  have e: "createPuzzle_loop 4 [0, 1, 27, 28, 80 :: nat] 0 solved_board = Some puzzle_board"
    "hasUniqueSolution puzzle_board = Some (True, puzzle_board)"
    by code_simp+
  note t = createPuzzle_result_unique[OF h, of 4 "''hard''" "\<lambda>_. 0"]
  show ?thesis
    by (intro conjI h e t[THEN conjunct1] t[THEN conjunct2])
qed

text \<open>
  C6. The grid returned by the removal loop, and so by \<open>createPuzzle\<close>, is a 9x9 grid
  whose every non-empty cell equals the corresponding cell of the grid it was given.
\<close>

theorem createPuzzle_subset_of_solved:
  assumes "grid9 solved" "list_all (\<lambda>i. i < 81) attempts"
  shows "(\<exists>b'. createPuzzle_loop n attempts 0 solved = Some b' \<and> grid9 b'
              \<and> (\<forall>r<9. \<forall>c<9. cell b' r c \<noteq> 0 \<longrightarrow> cell b' r c = cell solved r c))
       \<and> (\<exists>b' g'. createPuzzle d solved g = Some (b', g') \<and> grid9 b'
              \<and> (\<forall>r<9. \<forall>c<9. cell b' r c \<noteq> 0 \<longrightarrow> cell b' r c = cell solved r c))"
proof -
  have a: "\<forall>i\<in>set attempts. i < 81" using assms(2) by (simp add: list_all_iff)
  from createPuzzle_loop_props[OF assms(1) a, of n 0]
  obtain b1 where b1: "createPuzzle_loop n attempts 0 solved = Some b1" "grid9 b1"
    "\<forall>r<9. \<forall>c<9. cell b1 r c = cell solved r c \<or> cell b1 r c = 0"
    by (elim exE conjE)
  from createPuzzle_props[OF assms(1), of d g]
  obtain b2 g2 where b2: "createPuzzle d solved g = Some (b2, g2)" "grid9 b2"
    "\<forall>r<9. \<forall>c<9. cell b2 r c = cell solved r c \<or> cell b2 r c = 0"
    by (elim exE conjE)
  have s1: "\<forall>r<9. \<forall>c<9. cell b1 r c \<noteq> 0 \<longrightarrow> cell b1 r c = cell solved r c"
    using b1(3) by (rule only_cleared_subset)
  have s2: "\<forall>r<9. \<forall>c<9. cell b2 r c \<noteq> 0 \<longrightarrow> cell b2 r c = cell solved r c"
    using b2(3) by (rule only_cleared_subset)
  have "\<exists>b'. createPuzzle_loop n attempts 0 solved = Some b' \<and> grid9 b'
              \<and> (\<forall>r<9. \<forall>c<9. cell b' r c \<noteq> 0 \<longrightarrow> cell b' r c = cell solved r c)"
    by (intro exI[of _ b1] conjI b1(1,2) s1)
  moreover have "\<exists>b' g'. createPuzzle d solved g = Some (b', g') \<and> grid9 b'
              \<and> (\<forall>r<9. \<forall>c<9. cell b' r c \<noteq> 0 \<longrightarrow> cell b' r c = cell solved r c)"
    by (intro exI[of _ b2] exI[of _ g2] conjI b2(1,2) s2)
  ultimately show ?thesis by (rule conjI)
qed

theorem createPuzzle_subset_of_solved_witness:
  "grid9 solved_board \<and> list_all (\<lambda>i. i < 81) [0, 1, 27, 28, 80 :: nat]
   \<and> (\<exists>b'. createPuzzle_loop 4 [0, 1, 27, 28, 80 :: nat] 0 solved_board = Some b' \<and> grid9 b'
          \<and> (\<forall>r<9. \<forall>c<9. cell b' r c \<noteq> 0 \<longrightarrow> cell b' r c = cell solved_board r c))
   \<and> (\<exists>b' g'. createPuzzle ''medium'' solved_board (\<lambda>_. 0) = Some (b', g') \<and> grid9 b'
          \<and> (\<forall>r<9. \<forall>c<9. cell b' r c \<noteq> 0 \<longrightarrow> cell b' r c = cell solved_board r c))
   \<and> createPuzzle_loop 4 [0, 1, 27, 28, 80 :: nat] 0 solved_board = Some puzzle_board
   \<and> list_all (\<lambda>(r, c). cell puzzle_board r c \<noteq> 0 \<longrightarrow> cell puzzle_board r c = cell solved_board r c)
        positions"
proof -
  have h: "grid9 solved_board" "list_all (\<lambda>i. i < 81) [0, 1, 27, 28, 80 :: nat]"
    by code_simp+
  have e: "createPuzzle_loop 4 [0, 1, 27, 28, 80 :: nat] 0 solved_board = Some puzzle_board"
    "list_all (\<lambda>(r, c). cell puzzle_board r c \<noteq> 0 \<longrightarrow> cell puzzle_board r c = cell solved_board r c)
        positions"
    by code_simp+
  note t = createPuzzle_subset_of_solved[OF h, of 4 "''medium''" "\<lambda>_. 0"]
  show ?thesis
    by (intro conjI h e t[THEN conjunct1] t[THEN conjunct2])
qed

text \<open>
  C7. Given a completely filled 9x9 grid and a target count n, the grid returned by
  the removal loop has at most n empty cells, and for n = 0 it is the grid given;
  the grid returned by \<open>createPuzzle\<close> has at most as many empty cells as the
  difficulty's target count.
\<close>

theorem createPuzzle_removal_bound:
  assumes "grid9 solved" "full solved" "list_all (\<lambda>i. i < 81) attempts"
  shows "(\<exists>b'. createPuzzle_loop n attempts 0 solved = Some b' \<and> emptyCount b' \<le> n
              \<and> (n = 0 \<longrightarrow> b' = solved))
       \<and> (\<exists>b' g'. createPuzzle d solved g = Some (b', g')
              \<and> emptyCount b' \<le> getCellsToRemove d)"
proof -
  have a: "\<forall>i\<in>set attempts. i < 81" using assms(3) by (simp add: list_all_iff)
  note z = full_emptyCount[OF assms(2)]
  from createPuzzle_loop_props[OF assms(1) a, of n 0]
  obtain b1 where b1: "createPuzzle_loop n attempts 0 solved = Some b1"
    "emptyCount b1 \<le> emptyCount solved + (n - 0)"
    by (elim exE conjE)
  from createPuzzle_props[OF assms(1), of d g]
  obtain b2 g2 where b2: "createPuzzle d solved g = Some (b2, g2)"
    "emptyCount b2 \<le> emptyCount solved + getCellsToRemove d"
    by (elim exE conjE)
  have c1: "emptyCount b1 \<le> n" using b1(2) z by simp
  have c2: "emptyCount b2 \<le> getCellsToRemove d" using b2(2) z by simp
  have "n = 0 \<longrightarrow> b1 = solved"
    using b1(1) createPuzzle_loop_zero[of attempts solved] by (metis option.inject)
  with b1(1) c1 b2(1) c2 show ?thesis by blast
qed

theorem createPuzzle_removal_bound_witness:
  "grid9 solved_board \<and> full solved_board \<and> list_all (\<lambda>i. i < 81) [0, 1, 27, 28, 80 :: nat]
   \<and> (\<exists>b'. createPuzzle_loop 0 [0, 1, 27, 28, 80 :: nat] 0 solved_board = Some b'
          \<and> emptyCount b' \<le> 0 \<and> ((0::nat) = 0 \<longrightarrow> b' = solved_board))
   \<and> (\<exists>b' g'. createPuzzle ''easy'' solved_board (\<lambda>_. 0) = Some (b', g')
          \<and> emptyCount b' \<le> getCellsToRemove ''easy'')
   \<and> createPuzzle_loop 0 [0, 1, 27, 28, 80 :: nat] 0 solved_board = Some solved_board
   \<and> createPuzzle_loop 2 [0, 1, 27, 28, 80 :: nat] 0 solved_board
       = Some (set_cell (set_cell solved_board 0 0 0) 0 1 0)
   \<and> createPuzzle_loop 4 [0, 1, 27, 28, 80 :: nat] 0 solved_board = Some puzzle_board
   \<and> emptyCount puzzle_board = 4"
proof -
  have h: "grid9 solved_board" "full solved_board" "list_all (\<lambda>i. i < 81) [0, 1, 27, 28, 80 :: nat]"
    by code_simp+
  have e: "createPuzzle_loop 0 [0, 1, 27, 28, 80 :: nat] 0 solved_board = Some solved_board"
    "createPuzzle_loop 2 [0, 1, 27, 28, 80 :: nat] 0 solved_board
       = Some (set_cell (set_cell solved_board 0 0 0) 0 1 0)"
    "createPuzzle_loop 4 [0, 1, 27, 28, 80 :: nat] 0 solved_board = Some puzzle_board"
    "emptyCount puzzle_board = 4"
    by code_simp+
  note t = createPuzzle_removal_bound[OF h, of 0 "''easy''" "\<lambda>_. 0"]
  show ?thesis
    by (intro conjI h e t[THEN conjunct1] t[THEN conjunct2])
qed

section \<open>fillBoard\<close>

lemma fillBoard_filled:
  "find_empty b = None \<Longrightarrow> fillBoard (Suc n) b g = Some (True, b, g)"
  by simp

lemma fillBoard_empty_cell:
  "find_empty b = Some (row, col) \<Longrightarrow>
   fillBoard (Suc n) b g =
     fillBoard_nums n (fst (shuffleArray [1, 2, 3, 4, 5, 6, 7, 8, 9 :: nat] g)) row col b
       (snd (shuffleArray [1, 2, 3, 4, 5, 6, 7, 8, 9 :: nat] g))"
  by (simp add: case_prod_beta)

lemma fillBoard_nums_skip:
  "\<not> isValid b row col num \<Longrightarrow>
   fillBoard_nums n (num # rest) row col b g = fillBoard_nums n rest row col b g"
  by simp

lemma fillBoard_nums_success:
  "isValid b row col num \<Longrightarrow> fillBoard n (set_cell b row col num) g = Some (True, b1, g1) \<Longrightarrow>
   fillBoard_nums n (num # rest) row col b g = Some (True, b1, g1)"
  by simp

lemma fillBoard_nums_backtrack:
  "isValid b row col num \<Longrightarrow> fillBoard n (set_cell b row col num) g = Some (False, b1, g1) \<Longrightarrow>
   fillBoard_nums n (num # rest) row col b g = fillBoard_nums n rest row col (set_cell b1 row col 0) g1"
  by simp

lemma fillBoard_nums_overflow:
  "isValid b row col num \<Longrightarrow> fillBoard n (set_cell b row col num) g = None \<Longrightarrow>
   fillBoard_nums n (num # rest) row col b g = None"
  by simp

lemma shuffled_digits:
  "set (fst (shuffleArray [1, 2, 3, 4, 5, 6, 7, 8, 9 :: nat] g)) = {1, 2, 3, 4, 5, 6, 7, 8, 9}"
  by (simp add: shuffleArray_set)

text \<open>
  Whatever the depth bound, a call that returns leaves a 9x9 board: the board it
  was given if it returns false, a board without empty cells if it returns true.
\<close>

lemma fillBoard_nums_frame:
  assumes IH: "\<forall>b g ok b' g'. fillBoard n b g = Some (ok, b', g') \<longrightarrow> grid9 b \<longrightarrow>
                 grid9 b' \<and> (if ok then full b' else b' = b)"
    and b: "grid9 b" "row < 9" "col < 9" "cell b row col = 0"
  shows "fillBoard_nums n nums row col b g = Some (ok, b', g') \<Longrightarrow>
         grid9 b' \<and> (if ok then full b' else b' = b)"
proof (induction nums arbitrary: g)
  case Nil
  then show ?case using b(1) by simp
next
  case (Cons num rest)
  show ?case
  proof (cases "isValid b row col num")
    case False
    from Cons.prems have "fillBoard_nums n rest row col b g = Some (ok, b', g')"
      unfolding fillBoard_nums_skip[OF False] .
    then show ?thesis by (rule Cons.IH)
  next
    case True
    let ?b1 = "set_cell b row col num"
    have g1: "grid9 ?b1" using b(1) by (rule grid9_set_cell)
    show ?thesis
    proof (cases "fillBoard n ?b1 g")
      case None
      from Cons.prems show ?thesis
        unfolding fillBoard_nums_overflow[OF True None] by simp
    next
      case (Some res)
      obtain ok1 b1 g1 where res: "res = (ok1, b1, g1)" by (cases res)
      note call = Some[unfolded res]
      show ?thesis
      proof (cases ok1)
        case True
        with call have call': "fillBoard n ?b1 g = Some (True, b1, g1)" by simp
        from Cons.prems have "ok = True" "b' = b1"
          unfolding fillBoard_nums_success[OF \<open>isValid b row col num\<close> call']
          by simp_all
        with IH[rule_format, OF call g1] True show ?thesis by simp
      next
        case False
        with IH[rule_format, OF call g1] have "b1 = ?b1" by simp
        then have undo: "set_cell b1 row col 0 = b"
          using set_cell_undo[OF b] by simp
        from call False have call': "fillBoard n ?b1 g = Some (False, b1, g1)" by simp
        from Cons.prems have "fillBoard_nums n rest row col b g1 = Some (ok, b', g')"
          unfolding fillBoard_nums_backtrack[OF \<open>isValid b row col num\<close> call'] undo .
        then show ?thesis by (rule Cons.IH)
      qed
    qed
  qed
qed

lemma fillBoard_frame:
  "fillBoard n b g = Some (ok, b', g') \<Longrightarrow> grid9 b \<Longrightarrow>
   grid9 b' \<and> (if ok then full b' else b' = b)"
proof (induction n arbitrary: b g ok b' g')
  case 0
  then show ?case by simp
next
  case (Suc n)
  show ?case
  proof (cases "find_empty b")
    case None
    then have "full b" by (simp add: find_empty_None full_iff)
    with Suc.prems show ?thesis
      unfolding fillBoard_filled[OF None] by simp
  next
    case (Some p)
    obtain row col where p: "p = (row, col)" by (cases p)
    from Some p have e: "row < 9" "col < 9" "cell b row col = 0"
      using find_empty_Some[of b row col] by simp_all
    from Suc.prems(1)
    have "fillBoard_nums n (fst (shuffleArray [1, 2, 3, 4, 5, 6, 7, 8, 9 :: nat] g)) row col b
            (snd (shuffleArray [1, 2, 3, 4, 5, 6, 7, 8, 9 :: nat] g)) = Some (ok, b', g')"
      unfolding fillBoard_empty_cell[OF Some[unfolded p]] .
    moreover have "\<forall>b g ok b' g'. fillBoard n b g = Some (ok, b', g') \<longrightarrow> grid9 b \<longrightarrow>
                 grid9 b' \<and> (if ok then full b' else b' = b)"
      using Suc.IH by blast
    ultimately show ?thesis
      using Suc.prems(2) e by (rule fillBoard_nums_frame[rotated -1])
  qed
qed

text \<open>With a depth bound above the number of empty cells the call returns.\<close>

lemma fillBoard_nums_total:
  assumes IH: "\<forall>b g. grid9 b \<longrightarrow> emptyCount b < n \<longrightarrow> (\<exists>res. fillBoard n b g = Some res)"
    and b: "grid9 b" "row < 9" "col < 9" "cell b row col = 0"
    and n: "emptyCount b \<le> n"
  shows "0 \<notin> set nums \<Longrightarrow> \<exists>res. fillBoard_nums n nums row col b g = Some res"
proof (induction nums arbitrary: g)
  case Nil
  show ?case by (simp only: fillBoard_nums.simps) blast
next
  case (Cons num rest)
  then have num: "num \<noteq> 0" and rest: "0 \<notin> set rest" by auto
  show ?case
  proof (cases "isValid b row col num")
    case False
    show ?thesis
      unfolding fillBoard_nums_skip[OF False] by (rule Cons.IH[OF rest])
  next
    case True
    let ?b1 = "set_cell b row col num"
    have g1: "grid9 ?b1" using b(1) by (rule grid9_set_cell)
    have "Suc (emptyCount ?b1) = emptyCount b" using b num by (rule emptyCount_fill)
    with n have "emptyCount ?b1 < n" by simp
    from IH[rule_format, OF g1 this] obtain res where call: "fillBoard n ?b1 g = Some res" by blast
    obtain ok1 b1 g1 where res: "res = (ok1, b1, g1)" by (cases res)
    note call = call[unfolded res]
    show ?thesis
    proof (cases ok1)
      case True
      with call have call': "fillBoard n ?b1 g = Some (True, b1, g1)" by simp
      show ?thesis
        unfolding fillBoard_nums_success[OF \<open>isValid b row col num\<close> call']
        by blast
    next
      case False
      with fillBoard_frame[OF call g1] have "b1 = ?b1" by simp
      then have undo: "set_cell b1 row col 0 = b"
        using set_cell_undo[OF b] by simp
      from call False have call': "fillBoard n ?b1 g = Some (False, b1, g1)" by simp
      show ?thesis
        unfolding fillBoard_nums_backtrack[OF \<open>isValid b row col num\<close> call'] undo
        by (rule Cons.IH[OF rest])
    qed
  qed
qed

lemma fillBoard_total:
  "grid9 b \<Longrightarrow> emptyCount b < n \<Longrightarrow> \<exists>res. fillBoard n b g = Some res"
proof (induction n arbitrary: b g)
  case 0
  then show ?case by simp
next
  case (Suc n)
  show ?case
  proof (cases "find_empty b")
    case None
    show ?thesis unfolding fillBoard_filled[OF None] by blast
  next
    case (Some p)
    obtain row col where p: "p = (row, col)" by (cases p)
    from Some p have e: "row < 9" "col < 9" "cell b row col = 0"
      using find_empty_Some[of b row col] by simp_all
    have z: "0 \<notin> set (fst (shuffleArray [1, 2, 3, 4, 5, 6, 7, 8, 9 :: nat] g))"
      by (simp only: shuffled_digits) simp
    have le: "emptyCount b \<le> n" using Suc.prems(2) by simp
    have IH: "\<forall>b g. grid9 b \<longrightarrow> emptyCount b < n \<longrightarrow> (\<exists>res. fillBoard n b g = Some res)"
      using Suc.IH by blast
    show ?thesis
      unfolding fillBoard_empty_cell[OF Some[unfolded p]]
      by (rule fillBoard_nums_total[OF IH Suc.prems(1) e le z])
  qed
qed

text \<open>
  C8. On a 9x9 grid \<open>fillBoard\<close> returns, and whenever it returns false the grid is
  the grid it was given: every trial write has been undone.
\<close>

theorem fillBoard_failure_restores:
  assumes "grid9 b"
  shows "(\<exists>ok b1 g1. fillBoard depth_bound b g = Some (ok, b1, g1))
         \<and> (fillBoard n b g = Some (False, b', g') \<longrightarrow> b' = b)"
proof -
  have "emptyCount b < depth_bound"
    using emptyCount_le[of b] by (simp add: depth_bound_def)
  from fillBoard_total[OF assms this, of g]
  have "\<exists>ok b1 g1. fillBoard depth_bound b g = Some (ok, b1, g1)" by simp
  moreover have "b' = b" if "fillBoard n b g = Some (False, b', g')"
    using fillBoard_frame[OF that assms] by simp
  ultimately show ?thesis by blast
qed

theorem fillBoard_failure_restores_witness:
  "grid9 stuck_board
   \<and> (\<exists>b' g'. fillBoard depth_bound stuck_board (\<lambda>_. 0) = Some (False, b', g')
         \<and> b' = stuck_board)"
proof -
  have g: "grid9 stuck_board" by code_simp
  have "map_option fst (fillBoard depth_bound stuck_board (\<lambda>_. 0)) = Some False"
    by code_simp
  then obtain b' g' where r: "fillBoard depth_bound stuck_board (\<lambda>_. 0) = Some (False, b', g')"
    by (cases "fillBoard depth_bound stuck_board (\<lambda>_. 0)") auto
  from fillBoard_failure_restores[OF g, of "\<lambda>_. 0" depth_bound b' g'] r
  have "b' = stuck_board" by blast
  with g r show ?thesis by blast
qed

section \<open>Consistent boards\<close>

lemma all_positions: "list_all (\<lambda>(r, c). Q r c) positions \<longleftrightarrow> (\<forall>r<9. \<forall>c<9. Q r c)"
  by (auto simp: list_all_iff set_positions)

lemma consistent_iff:
  "consistent b \<longleftrightarrow>
   (\<forall>r<9. \<forall>c<9. \<forall>r'<9. \<forall>c'<9.
      (r, c) \<noteq> (r', c') \<and> same_unit r c r' c' \<and> cell b r c \<noteq> 0 \<longrightarrow> cell b r c \<noteq> cell b r' c')"
  unfolding consistent_def all_positions ..

lemma in_range_iff: "in_range b \<longleftrightarrow> (\<forall>r<9. \<forall>c<9. cell b r c \<le> 9)"
  unfolding in_range_def all_positions ..

lemma agrees_iff:
  "agrees b s \<longleftrightarrow> (\<forall>r<9. \<forall>c<9. cell b r c \<noteq> 0 \<longrightarrow> cell b r c = cell s r c)"
  unfolding agrees_def all_positions ..

lemma consistentD:
  assumes "consistent b" "r < 9" "c < 9" "r' < 9" "c' < 9"
    "(r, c) \<noteq> (r', c')" "same_unit r c r' c'" "cell b r c \<noteq> 0"
  shows "cell b r c \<noteq> cell b r' c'"
  using assms(1)[unfolded consistent_iff, rule_format, of r c r' c'] assms(2-) by blast

lemma isValidD:
  assumes "isValid b row col num" "row < 9" "col < 9" "r < 9" "c < 9" "same_unit row col r c"
  shows "cell b r c \<noteq> num"
  using assms(1)[unfolded isValid_iff[OF assms(2,3)], rule_format, of r c] assms(4-) by blast

lemma consistent_set_cell:
  assumes b: "grid9 b" "row < 9" "col < 9"
    and c: "consistent b" and v: "isValid b row col num"
  shows "consistent (set_cell b row col num)"
  unfolding consistent_iff
proof (intro allI impI, elim conjE)
  fix r c r' c' :: nat
  assume rc: "r < 9" "c < 9" "r' < 9" "c' < 9"
    and ne: "(r, c) \<noteq> (r', c')" and su: "same_unit r c r' c'"
    and nz: "cell (set_cell b row col num) r c \<noteq> 0"
  note upd = cell_set_cell[OF b]
  show "cell (set_cell b row col num) r c \<noteq> cell (set_cell b row col num) r' c'"
  proof (cases "r = row \<and> c = col")
    case True
    with ne have other: "\<not> (r' = row \<and> c' = col)" by auto
    from True su have "same_unit row col r' c'" by simp
    from isValidD[OF v b(2,3) rc(3,4) this] have "cell b r' c' \<noteq> num" .
    moreover have "cell (set_cell b row col num) r c = num"
      unfolding upd using True by (rule if_P)
    moreover have "cell (set_cell b row col num) r' c' = cell b r' c'"
      unfolding upd using other by (rule if_not_P)
    ultimately show ?thesis by simp
  next
    case False
    then have here: "cell (set_cell b row col num) r c = cell b r c"
      unfolding upd by (rule if_not_P)
    with nz have nz': "cell b r c \<noteq> 0" by simp
    show ?thesis
    proof (cases "r' = row \<and> c' = col")
      case True
      with su have "same_unit row col r c" by (auto intro: same_unit_sym)
      from isValidD[OF v b(2,3) rc(1,2) this] have "cell b r c \<noteq> num" .
      moreover have "cell (set_cell b row col num) r' c' = num"
        unfolding upd using True by (rule if_P)
      ultimately show ?thesis using here by simp
    next
      case False
      then have "cell (set_cell b row col num) r' c' = cell b r' c'"
        unfolding upd by (rule if_not_P)
      with here consistentD[OF c rc ne su nz'] show ?thesis by simp
    qed
  qed
qed

lemma in_range_set_cell:
  assumes "grid9 b" "row < 9" "col < 9" "in_range b" "num \<le> 9"
  shows "in_range (set_cell b row col num)"
  using assms(4,5) unfolding in_range_iff by (simp add: cell_set_cell[OF assms(1-3)])

text \<open>A successful fill keeps the board consistent and in range.\<close>

lemma fillBoard_nums_sound:
  assumes IH: "\<forall>b g b' g'. fillBoard n b g = Some (True, b', g') \<longrightarrow> grid9 b \<longrightarrow>
                 consistent b \<longrightarrow> in_range b \<longrightarrow> consistent b' \<and> in_range b'"
    and b: "grid9 b" "row < 9" "col < 9" "cell b row col = 0"
    and inv: "consistent b" "in_range b"
  shows "\<forall>x\<in>set nums. x \<le> 9 \<Longrightarrow>
         fillBoard_nums n nums row col b g = Some (True, b', g') \<Longrightarrow>
         consistent b' \<and> in_range b'"
proof (induction nums arbitrary: g)
  case Nil
  then show ?case by simp
next
  case (Cons num rest)
  from Cons.prems(1) have num: "num \<le> 9" and rest: "\<forall>x\<in>set rest. x \<le> 9" by simp_all
  show ?case
  proof (cases "isValid b row col num")
    case False
    from Cons.prems(2) have "fillBoard_nums n rest row col b g = Some (True, b', g')"
      unfolding fillBoard_nums_skip[OF False] .
    with rest show ?thesis by (rule Cons.IH)
  next
    case True
    let ?b1 = "set_cell b row col num"
    have g1: "grid9 ?b1" using b(1) by (rule grid9_set_cell)
    show ?thesis
    proof (cases "fillBoard n ?b1 g")
      case None
      from Cons.prems(2) show ?thesis
        unfolding fillBoard_nums_overflow[OF True None] by simp
    next
      case (Some res)
      obtain ok1 b1 g1 where res: "res = (ok1, b1, g1)" by (cases res)
      note call = Some[unfolded res]
      show ?thesis
      proof (cases ok1)
        case True
        with call have call': "fillBoard n ?b1 g = Some (True, b1, g1)" by simp
        from Cons.prems(2) have "b' = b1"
          unfolding fillBoard_nums_success[OF \<open>isValid b row col num\<close> call'] by simp
        moreover have "consistent ?b1"
          using b(1-3) inv(1) \<open>isValid b row col num\<close> by (rule consistent_set_cell)
        moreover have "in_range ?b1"
          using b(1-3) inv(2) num by (rule in_range_set_cell)
        ultimately show ?thesis
          using IH[rule_format, OF call' g1] by simp
      next
        case False
        with call have call': "fillBoard n ?b1 g = Some (False, b1, g1)" by simp
        from fillBoard_frame[OF call' g1] have "b1 = ?b1" by simp
        then have undo: "set_cell b1 row col 0 = b"
          using set_cell_undo[OF b] by simp
        from Cons.prems(2) have "fillBoard_nums n rest row col b g1 = Some (True, b', g')"
          unfolding fillBoard_nums_backtrack[OF \<open>isValid b row col num\<close> call'] undo .
        with rest show ?thesis by (rule Cons.IH)
      qed
    qed
  qed
qed

lemma fillBoard_sound:
  "fillBoard n b g = Some (True, b', g') \<Longrightarrow> grid9 b \<Longrightarrow> consistent b \<Longrightarrow> in_range b \<Longrightarrow>
   consistent b' \<and> in_range b'"
proof (induction n arbitrary: b g b' g')
  case 0
  then show ?case by simp
next
  case (Suc n)
  show ?case
  proof (cases "find_empty b")
    case None
    with Suc.prems show ?thesis
      unfolding fillBoard_filled[OF None] by simp
  next
    case (Some p)
    obtain row col where p: "p = (row, col)" by (cases p)
    from Some p have e: "row < 9" "col < 9" "cell b row col = 0"
      using find_empty_Some[of b row col] by simp_all
    let ?nums = "fst (shuffleArray [1, 2, 3, 4, 5, 6, 7, 8, 9 :: nat] g)"
    have le: "\<forall>x\<in>set ?nums. x \<le> 9"
      unfolding shuffled_digits by simp
    have IH: "\<forall>b g b' g'. fillBoard n b g = Some (True, b', g') \<longrightarrow> grid9 b \<longrightarrow>
                 consistent b \<longrightarrow> in_range b \<longrightarrow> consistent b' \<and> in_range b'"
      using Suc.IH by blast
    from Suc.prems(1)
    have "fillBoard_nums n ?nums row col b
            (snd (shuffleArray [1, 2, 3, 4, 5, 6, 7, 8, 9 :: nat] g)) = Some (True, b', g')"
      unfolding fillBoard_empty_cell[OF Some[unfolded p]] .
    with le show ?thesis
      by (rule fillBoard_nums_sound[OF IH Suc.prems(2) e Suc.prems(3,4)])
  qed
qed

text \<open>
  Completeness: if some full consistent grid agrees with the board, the fill succeeds,
  whatever orders the shuffles produce, because the digit that grid holds at the cell
  being tried is among the candidates and is accepted when its turn comes.
\<close>

lemma agrees_valid:
  assumes rc: "row < 9" "col < 9" and z: "cell b row col = 0"
    and s: "agrees b s" "full s" "consistent s"
  shows "isValid b row col (cell s row col)"
  unfolding isValid_iff[OF rc]
proof (intro allI impI)
  fix r c :: nat assume b: "r < 9" "c < 9" and su: "same_unit row col r c"
  have nz: "cell s row col \<noteq> 0" using s(2) rc by (simp add: full_iff)
  show "cell b r c \<noteq> cell s row col"
  proof
    assume eq: "cell b r c = cell s row col"
    with nz have "cell b r c \<noteq> 0" by simp
    with s(1) b have "cell b r c = cell s r c" by (simp add: agrees_iff)
    with eq have same: "cell s row col = cell s r c" by simp
    have "(row, col) \<noteq> (r, c)" using eq nz z by auto
    from consistentD[OF s(3) rc b this su nz] same show False by simp
  qed
qed

lemma agrees_set_cell:
  assumes "grid9 b" "row < 9" "col < 9" "agrees b s"
  shows "agrees (set_cell b row col (cell s row col)) s"
  using assms(4) unfolding agrees_iff by (simp add: cell_set_cell[OF assms(1-3)])

lemma fillBoard_nums_complete:
  assumes IH: "\<forall>b g. grid9 b \<longrightarrow> emptyCount b < n \<longrightarrow> agrees b s \<longrightarrow>
                 (\<exists>b' g'. fillBoard n b g = Some (True, b', g'))"
    and b: "grid9 b" "row < 9" "col < 9" "cell b row col = 0"
    and n: "emptyCount b \<le> n"
    and s: "agrees b s" "full s" "consistent s"
  shows "0 \<notin> set nums \<Longrightarrow> cell s row col \<in> set nums \<Longrightarrow>
         \<exists>b' g'. fillBoard_nums n nums row col b g = Some (True, b', g')"
proof (induction nums arbitrary: g)
  case Nil
  then show ?case by simp
next
  case (Cons num rest)
  from Cons.prems(1) have num: "num \<noteq> 0" and rest: "0 \<notin> set rest" by auto
  show ?case
  proof (cases "isValid b row col num")
    case False
    with agrees_valid[OF b(2-4) s] have "num \<noteq> cell s row col" by auto
    with Cons.prems(2) have "cell s row col \<in> set rest" by auto
    from Cons.IH[OF rest this] show ?thesis
      unfolding fillBoard_nums_skip[OF False] .
  next
    case True
    let ?b1 = "set_cell b row col num"
    have g1: "grid9 ?b1" using b(1) by (rule grid9_set_cell)
    have "Suc (emptyCount ?b1) = emptyCount b" using b num by (rule emptyCount_fill)
    with n have fuel: "emptyCount ?b1 < n" by simp
    from fillBoard_total[OF g1 fuel, of g] obtain res where call: "fillBoard n ?b1 g = Some res"
      by blast
    obtain ok1 b1 g1 where res: "res = (ok1, b1, g1)" by (cases res)
    note call = call[unfolded res]
    show ?thesis
    proof (cases ok1)
      case True
      with call have call': "fillBoard n ?b1 g = Some (True, b1, g1)" by simp
      show ?thesis
        unfolding fillBoard_nums_success[OF \<open>isValid b row col num\<close> call'] by blast
    next
      case False
      with call have call': "fillBoard n ?b1 g = Some (False, b1, g1)" by simp
      have "num \<noteq> cell s row col"
      proof
        assume "num = cell s row col"
        then have "agrees ?b1 s" using agrees_set_cell[OF b(1-3) s(1)] by simp
        from IH[rule_format, OF g1 fuel this, of g] call' show False by simp
      qed
      with Cons.prems(2) have mem: "cell s row col \<in> set rest" by auto
      from fillBoard_frame[OF call' g1] have "b1 = ?b1" by simp
      then have undo: "set_cell b1 row col 0 = b"
        using set_cell_undo[OF b] by simp
      from Cons.IH[OF rest mem] show ?thesis
        unfolding fillBoard_nums_backtrack[OF \<open>isValid b row col num\<close> call'] undo .
    qed
  qed
qed

lemma fillBoard_complete:
  assumes s: "full s" "consistent s" "in_range s"
  shows "grid9 b \<Longrightarrow> emptyCount b < n \<Longrightarrow> agrees b s \<Longrightarrow>
         \<exists>b' g'. fillBoard n b g = Some (True, b', g')"
proof (induction n arbitrary: b g)
  case 0
  then show ?case by simp
next
  case (Suc n)
  show ?case
  proof (cases "find_empty b")
    case None
    show ?thesis unfolding fillBoard_filled[OF None] by blast
  next
    case (Some p)
    obtain row col where p: "p = (row, col)" by (cases p)
    from Some p have e: "row < 9" "col < 9" "cell b row col = 0"
      using find_empty_Some[of b row col] by simp_all
    let ?nums = "fst (shuffleArray [1, 2, 3, 4, 5, 6, 7, 8, 9 :: nat] g)"
    have z: "0 \<notin> set ?nums"
      unfolding shuffled_digits by simp
    have "cell s row col \<noteq> 0" using s(1) e(1,2) by (simp add: full_iff)
    moreover have "cell s row col \<le> 9" using s(3) e(1,2) by (simp add: in_range_iff)
    ultimately have "cell s row col \<in> {1, 2, 3, 4, 5, 6, 7, 8, 9}" by auto
    then have mem: "cell s row col \<in> set ?nums"
      unfolding shuffled_digits .
    have le: "emptyCount b \<le> n" using Suc.prems(2) by simp
    have IH: "\<forall>b g. grid9 b \<longrightarrow> emptyCount b < n \<longrightarrow> agrees b s \<longrightarrow>
                 (\<exists>b' g'. fillBoard n b g = Some (True, b', g'))"
      using Suc.IH by blast
    show ?thesis
      unfolding fillBoard_empty_cell[OF Some[unfolded p]]
      by (rule fillBoard_nums_complete[OF IH Suc.prems(1) e le Suc.prems(3) s(1,2) z mem])
  qed
qed

section \<open>Solved grids\<close>

lemma perm_1_9I:
  assumes "length xs = 9" "distinct xs" "set xs \<subseteq> {1, 2, 3, 4, 5, 6, 7, 8, 9}"
  shows "is_perm_1_9 xs"
proof -
  have "card (set xs) = 9" using assms(1,2) by (simp add: distinct_card)
  then have "card (set xs) = card {1, 2, 3, 4, 5, 6, 7, 8, 9 :: nat}" by simp
  with assms(3) have "set xs = {1, 2, 3, 4, 5, 6, 7, 8, 9}"
    by (intro card_subset_eq) simp_all
  then have "set xs = set [1, 2, 3, 4, 5, 6, 7, 8, 9]" by simp
  moreover have "distinct [1, 2, 3, 4, 5, 6, 7, 8, 9 :: nat]" by simp
  ultimately show ?thesis
    unfolding is_perm_1_9_def using assms(2) by (simp only: set_eq_iff_mset_eq_distinct)
qed

lemma units_wellformed:
  "list_all (\<lambda>u. length u = 9 \<and> distinct u \<and> list_all (\<lambda>(r, c). r < 9 \<and> c < 9) u
      \<and> list_all (\<lambda>(r, c). list_all (\<lambda>(r', c'). same_unit r c r' c') u) u) units"
  by code_simp

lemma unit_perm:
  assumes b: "full b" "consistent b" "in_range b"
    and u: "length u = 9" "distinct u" "\<forall>p\<in>set u. fst p < 9 \<and> snd p < 9"
      "\<forall>p\<in>set u. \<forall>q\<in>set u. same_unit (fst p) (snd p) (fst q) (snd q)"
  shows "is_perm_1_9 (cells_at b u)"
proof (rule perm_1_9I)
  show "length (cells_at b u) = 9" using u(1) by (simp add: cells_at_def)
next
  have "inj_on (\<lambda>(r, c). cell b r c) (set u)"
  proof (rule inj_onI)
    fix p q assume pq: "p \<in> set u" "q \<in> set u"
      and eq: "(case p of (r, c) \<Rightarrow> cell b r c) = (case q of (r, c) \<Rightarrow> cell b r c)"
    obtain r c where p: "p = (r, c)" by (cases p)
    obtain r' c' where q: "q = (r', c')" by (cases q)
    from pq u(3) p q have bounds: "r < 9" "c < 9" "r' < 9" "c' < 9" by auto
    from pq u(4) p q have su: "same_unit r c r' c'" by fastforce
    have nz: "cell b r c \<noteq> 0" using b(1) bounds by (simp add: full_iff)
    show "p = q"
    proof (rule ccontr)
      assume "p \<noteq> q"
      with p q have "(r, c) \<noteq> (r', c')" by simp
      from consistentD[OF b(2) bounds this su nz] eq p q show False by simp
    qed
  qed
  with u(2) show "distinct (cells_at b u)" by (simp add: cells_at_def distinct_map)
next
  show "set (cells_at b u) \<subseteq> {1, 2, 3, 4, 5, 6, 7, 8, 9}"
  proof
    fix x assume "x \<in> set (cells_at b u)"
    then obtain r c where rc: "(r, c) \<in> set u" "x = cell b r c"
      by (auto simp: cells_at_def)
    with u(3) have bounds: "r < 9" "c < 9" by auto
    have "x \<noteq> 0" using b(1) bounds rc(2) by (simp add: full_iff)
    moreover have "x \<le> 9" using b(3) bounds rc(2) by (simp add: in_range_iff)
    ultimately show "x \<in> {1, 2, 3, 4, 5, 6, 7, 8, 9}" by auto
  qed
qed

lemma solved_gridI:
  assumes "full b" "consistent b" "in_range b"
  shows "solved_grid b"
  unfolding solved_grid_def list_all_iff
proof
  fix u assume "u \<in> set units"
  with units_wellformed have w: "length u = 9" "distinct u"
    "list_all (\<lambda>(r, c). r < 9 \<and> c < 9) u"
    "list_all (\<lambda>(r, c). list_all (\<lambda>(r', c'). same_unit r c r' c') u) u"
    by (auto simp: list_all_iff)
  from w(3) have w3: "\<forall>p\<in>set u. fst p < 9 \<and> snd p < 9"
    by (auto simp: list_all_iff)
  from w(4) have w4: "\<forall>p\<in>set u. \<forall>q\<in>set u. same_unit (fst p) (snd p) (fst q) (snd q)"
    by (fastforce simp: list_all_iff)
  from assms w(1,2) w3 w4 show "is_perm_1_9 (cells_at b u)" by (rule unit_perm)
qed

lemma solved_board_facts:
  "grid9 solved_board" "full solved_board" "consistent solved_board" "in_range solved_board"
  by code_simp+

lemma empty_board_facts:
  "consistent empty_board" "in_range empty_board" "agrees empty_board s"
  by (simp_all add: consistent_iff in_range_iff agrees_iff cell_empty_board)

text \<open>
  C3. Whatever the random source yields, \<open>fillBoard\<close> on the all-empty grid returns
  true, \<open>generateCompleteSudoku\<close> returns the grid it filled, that grid has no empty
  cell, and each of its rows, columns and boxes is a permutation of 1..9.
\<close>

theorem generateCompleteSudoku_solved:
  "\<exists>b' g'. fillBoard depth_bound empty_board g = Some (True, b', g')
     \<and> generateCompleteSudoku g = Some (b', g')
     \<and> grid9 b' \<and> full b' \<and> solved_grid b'"
proof -
  have fuel: "emptyCount empty_board < depth_bound"
    using emptyCount_le[of empty_board] by (simp add: depth_bound_def)
  from fillBoard_complete[OF solved_board_facts(2-4) grid9_empty_board fuel empty_board_facts(3)]
  obtain b' g' where run: "fillBoard depth_bound empty_board g = Some (True, b', g')"
    by blast
  from fillBoard_frame[OF run grid9_empty_board] have f: "grid9 b'" "full b'" by simp_all
  from fillBoard_sound[OF run grid9_empty_board empty_board_facts(1,2)]
  have "consistent b'" "in_range b'" by simp_all
  with f(2) have "solved_grid b'" by (rule solved_gridI)
  moreover have "generateCompleteSudoku g = Some (b', g')"
    by (simp add: generateCompleteSudoku_def run)
  ultimately show ?thesis using run f by blast
qed

theorem generateCompleteSudoku_solved_witness:
  "(\<exists>b' g'. fillBoard depth_bound empty_board (\<lambda>_. 0) = Some (True, b', g')
     \<and> generateCompleteSudoku (\<lambda>_. 0) = Some (b', g')
     \<and> grid9 b' \<and> full b' \<and> solved_grid b')
   \<and> solved_grid solved_board \<and> \<not> solved_grid board_all_1 \<and> \<not> solved_grid puzzle_board"
proof -
  have "solved_grid solved_board" "\<not> solved_grid board_all_1" "\<not> solved_grid puzzle_board"
    by code_simp+
  with generateCompleteSudoku_solved[of "\<lambda>_. 0"] show ?thesis by blast
qed

end
